theory Spec2Isabelle
  imports Main "HOL-Library.Word"
begin

section \<open>The hashmap of ts_hashmap.c\<close>

subsection \<open>Data model\<close>

text \<open>
  A C \<^verbatim>\<open>int\<close> is a 32-bit two's complement value: \<open>sint\<close> reads it as the C program
  does, \<open>unat\<close> reads the same bit pattern as \<^verbatim>\<open>unsigned int\<close>, and \<open>+\<close>, \<open>-\<close> wrap
  around.
\<close>

type_synonym cint = "32 word"

text \<open>
  Modelled from the spec: the header ts_hashmap.h, which declares \<^verbatim>\<open>ts_entry_t\<close> and
  \<^verbatim>\<open>ts_hashmap_t\<close>, is missing. An entry holds a key, a value and the reference to the
  next entry of its chain; the map holds the table of bucket heads, the capacity, the
  live entry count \<^verbatim>\<open>size\<close> and the operation counter \<^verbatim>\<open>numOps\<close>. The integer fields
  are taken as \<^verbatim>\<open>int\<close>, as the parameters of \<^verbatim>\<open>initmap\<close>, \<^verbatim>\<open>get\<close>, \<^verbatim>\<open>put\<close> and the
  loop variable compared with the capacity are. The field \<^verbatim>\<open>value\<close> of an entry is
  \<open>val\<close> here and the field \<^verbatim>\<open>size\<close> of the map is \<open>size_m\<close>.

  A chain (the entries linked through \<^verbatim>\<open>next\<close> from a bucket head down to \<^verbatim>\<open>NULL\<close>) is
  the list of its entries, head first; the table is the list of its chains. The mutex
  is not modelled: each operation is one atomic step of the state, as it is for a
  caller that holds the lock.
\<close>

record ts_entry =
  key :: cint
  val :: cint

type_synonym chain = "ts_entry list"

record ts_hashmap =
  table :: "chain list"
  numOps :: cint
  capacity :: cint
  size_m :: cint

text \<open>\<^verbatim>\<open>INT_MAX\<close> of limits.h, the value returned for a key that is not found.\<close>

definition INT_MAX :: cint where
  "INT_MAX = 0x7FFFFFFF"

text \<open>
  What the C program leaves undefined: the remainder by a capacity of zero, and a read
  of the table outside its allocated length.
\<close>

datatype fault = DivisionByZero | OutOfBounds

subsection \<open>initmap\<close>

text \<open>
  The three booleans say whether \<^verbatim>\<open>malloc\<close> of the map, \<^verbatim>\<open>malloc\<close> of the table and
  \<^verbatim>\<open>pthread_mutex_init\<close> succeed; \<open>None\<close> is the \<^verbatim>\<open>NULL\<close> returned on failure. The loop
  \<^verbatim>\<open>for (int i = 0; i < capacity; i++) map->table[i] = NULL\<close> writes one empty chain for
  each \<open>i\<close> from 0 below the capacity, none when the capacity is not positive.
\<close>

definition initmap :: "bool \<Rightarrow> bool \<Rightarrow> bool \<Rightarrow> cint \<Rightarrow> ts_hashmap option" where
  "initmap map_alloc table_alloc lock_init cap =
     (if \<not> map_alloc then None
      else if \<not> table_alloc then None
      else if \<not> lock_init then None
      else Some \<lparr>table = map (\<lambda>i. []) [0..<nat (sint cap)],
                 numOps = 0, capacity = cap, size_m = 0\<rparr>)"

subsection \<open>The bucket index\<close>

text \<open>
  \<^verbatim>\<open>unsigned int index = (unsigned int)key % map->capacity\<close>: the key is converted to
  \<^verbatim>\<open>unsigned int\<close> (the same 32 bits), the \<^verbatim>\<open>int\<close> capacity is converted to
  \<^verbatim>\<open>unsigned int\<close> by the usual arithmetic conversions, and the remainder is unsigned,
  which is \<open>mod\<close> on words. A capacity of zero divides by zero.
\<close>

definition key_index :: "cint \<Rightarrow> cint \<Rightarrow> fault + cint" where
  "key_index k cap = (if cap = 0 then Inl DivisionByZero else Inr (k mod cap))"

text \<open>\<^verbatim>\<open>map->table[index]\<close>: the position of the bucket, when it is inside the table.\<close>

definition locate :: "ts_hashmap \<Rightarrow> cint \<Rightarrow> fault + nat" where
  "locate m k =
     (case key_index k (capacity m) of
        Inl e \<Rightarrow> Inl e
      | Inr index \<Rightarrow>
          if unat index < length (table m) then Inr (unat index) else Inl OutOfBounds)"

subsection \<open>get\<close>

text \<open>The \<^verbatim>\<open>while (entry != NULL)\<close> scan: the value of the first entry with the key.\<close>

fun get_scan :: "chain \<Rightarrow> cint \<Rightarrow> cint option" where
  "get_scan [] k = None"
| "get_scan (entry # rest) k =
     (if key entry = k then Some (val entry) else get_scan rest k)"

definition get :: "ts_hashmap \<Rightarrow> cint \<Rightarrow> fault + (cint \<times> ts_hashmap)" where
  "get m k =
     (case locate m k of
        Inl e \<Rightarrow> Inl e
      | Inr index \<Rightarrow>
          (case get_scan (table m ! index) k of
             Some v \<Rightarrow> Inr (v, m\<lparr>numOps := numOps m + 1\<rparr>)
           | None \<Rightarrow> Inr (INT_MAX, m\<lparr>numOps := numOps m + 1\<rparr>)))"

subsection \<open>put\<close>

text \<open>
  The scan through \<^verbatim>\<open>ptr\<close>: at the first entry with the key, the old value is captured
  and the value overwritten in place; \<open>None\<close> when the scan reaches \<^verbatim>\<open>NULL\<close>.
\<close>

fun put_scan :: "chain \<Rightarrow> cint \<Rightarrow> cint \<Rightarrow> (cint \<times> chain) option" where
  "put_scan [] k v = None"
| "put_scan (entry # rest) k v =
     (if key entry = k then Some (val entry, entry\<lparr>val := v\<rparr> # rest)
      else (case put_scan rest k v of
              None \<Rightarrow> None
            | Some (oldValue, rest') \<Rightarrow> Some (oldValue, entry # rest')))"

text \<open>
  \<open>entry_alloc\<close> says whether \<^verbatim>\<open>malloc\<close> of the new entry succeeds; it is consulted only
  when the key was not found. The new entry becomes the head of its chain.
\<close>

definition put :: "bool \<Rightarrow> ts_hashmap \<Rightarrow> cint \<Rightarrow> cint \<Rightarrow> fault + (cint \<times> ts_hashmap)" where
  "put entry_alloc m k v =
     (case locate m k of
        Inl e \<Rightarrow> Inl e
      | Inr index \<Rightarrow>
          (case put_scan (table m ! index) k v of
             Some (oldValue, c) \<Rightarrow>
               Inr (oldValue, m\<lparr>table := (table m)[index := c], numOps := numOps m + 1\<rparr>)
           | None \<Rightarrow>
               if entry_alloc then
                 Inr (INT_MAX,
                      m\<lparr>table := (table m)[index := \<lparr>key = k, val = v\<rparr> # table m ! index],
                        size_m := size_m m + 1,
                        numOps := numOps m + 1\<rparr>)
               else Inr (INT_MAX, m\<lparr>numOps := numOps m + 1\<rparr>)))"

subsection \<open>del\<close>

text \<open>
  The scan through \<^verbatim>\<open>ptr\<close>: the first entry with the key is spliced out of the chain and
  its value returned; \<open>None\<close> when the scan reaches \<^verbatim>\<open>NULL\<close>.
\<close>

fun del_scan :: "chain \<Rightarrow> cint \<Rightarrow> (cint \<times> chain) option" where
  "del_scan [] k = None"
| "del_scan (entry # rest) k =
     (if key entry = k then Some (val entry, rest)
      else (case del_scan rest k of
              None \<Rightarrow> None
            | Some (v, rest') \<Rightarrow> Some (v, entry # rest')))"

definition del :: "ts_hashmap \<Rightarrow> cint \<Rightarrow> fault + (cint \<times> ts_hashmap)" where
  "del m k =
     (case locate m k of
        Inl e \<Rightarrow> Inl e
      | Inr index \<Rightarrow>
          (case del_scan (table m ! index) k of
             Some (v, c) \<Rightarrow>
               Inr (v, m\<lparr>table := (table m)[index := c],
                         size_m := size_m m - 1,
                         numOps := numOps m + 1\<rparr>)
           | None \<Rightarrow> Inr (INT_MAX, m\<lparr>numOps := numOps m + 1\<rparr>)))"

subsection \<open>Sequences of calls\<close>

text \<open>
  One call of a public operation; a \<open>Put\<close> carries the outcome of its allocation. A
  sequence of calls runs from left to right and stops at the first fault; it yields
  the values the calls returned, in order, and the final map.
\<close>

datatype call = Get cint | Put bool cint cint | Del cint

fun step :: "ts_hashmap \<Rightarrow> call \<Rightarrow> fault + (cint \<times> ts_hashmap)" where
  "step m (Get k) = get m k"
| "step m (Put entry_alloc k v) = put entry_alloc m k v"
| "step m (Del k) = del m k"

fun run :: "ts_hashmap \<Rightarrow> call list \<Rightarrow> fault + (cint list \<times> ts_hashmap)" where
  "run m [] = Inr ([], m)"
| "run m (c # cs) =
     (case step m c of
        Inl e \<Rightarrow> Inl e
      | Inr (r, m') \<Rightarrow>
          (case run m' cs of
             Inl e \<Rightarrow> Inl e
           | Inr (rs, m'') \<Rightarrow> Inr (r # rs, m'')))"

subsection \<open>Invariants\<close>

text \<open>All entries of the map, bucket after bucket, and whether a key is among them.\<close>

definition entries :: "ts_hashmap \<Rightarrow> ts_entry list" where
  "entries m = concat (table m)"

definition present :: "ts_hashmap \<Rightarrow> cint \<Rightarrow> bool" where
  "present m k \<longleftrightarrow> k \<in> key ` set (entries m)"

text \<open>The capacity is positive and the table has one bucket for each index below it.\<close>

definition valid_map :: "ts_hashmap \<Rightarrow> bool" where
  "valid_map m \<longleftrightarrow> 0 < sint (capacity m) \<and> length (table m) = unat (capacity m)"

text \<open>Every entry of bucket \<open>i\<close> has a key whose index is \<open>i\<close>.\<close>

definition chain_placed :: "cint \<Rightarrow> nat \<Rightarrow> chain \<Rightarrow> bool" where
  "chain_placed cap i c \<longleftrightarrow> list_all (\<lambda>e. unat (key e mod cap) = i) c"

definition placed :: "ts_hashmap \<Rightarrow> bool" where
  "placed m \<longleftrightarrow>
     list_all (\<lambda>i. chain_placed (capacity m) i (table m ! i)) [0..<length (table m)]"

text \<open>No key occurs twice, neither within a chain nor in two chains.\<close>

definition no_duplicates :: "ts_hashmap \<Rightarrow> bool" where
  "no_duplicates m \<longleftrightarrow> distinct (map key (entries m))"

text \<open>\<^verbatim>\<open>size\<close> counts the entries (as an \<^verbatim>\<open>int\<close>, so modulo \<open>2 ^ 32\<close>).\<close>

definition size_counts :: "ts_hashmap \<Rightarrow> bool" where
  "size_counts m \<longleftrightarrow> size_m m = of_nat (length (entries m))"

definition map_inv :: "ts_hashmap \<Rightarrow> bool" where
  "map_inv m \<longleftrightarrow> valid_map m \<and> placed m \<and> no_duplicates m \<and> size_counts m"

subsection \<open>A sample map\<close>

text \<open>
  The map of capacity 4 after \<^verbatim>\<open>put(1, 100)\<close> and \<^verbatim>\<open>put(5, 200)\<close> on a fresh map: both
  keys have index 1, and the later insertion is the head of the chain.
\<close>

definition scenario_map :: ts_hashmap where
  "scenario_map =
     \<lparr>table = [[], [\<lparr>key = 5, val = 200\<rparr>, \<lparr>key = 1, val = 100\<rparr>], [], []],
      numOps = 2, capacity = 4, size_m = 2\<rparr>"

section \<open>Properties\<close>

subsection \<open>Machine integers\<close>

lemma uint_sint_mod: "uint (k::cint) = sint k mod 2 ^ 32"
  by (simp add: uint_sint take_bit_eq_mod)

lemma sint_bounds: "- (2 ^ 31) \<le> sint (k::cint) \<and> sint k < 2 ^ 31"
  using sint_ge [of k] sint_lt [of k] by simp

lemma uint_pos_cap: "0 < sint (cap::cint) \<Longrightarrow> uint cap = sint cap"
  using sint_bounds [of cap] by (simp add: uint_sint_mod)

lemma unat_pos_cap: "0 < sint (cap::cint) \<Longrightarrow> unat cap = nat (sint cap)"
  using uint_pos_cap [of cap] by (simp add: unat_eq_nat_uint)

lemma pos_cap_ne0: "0 < sint (cap::cint) \<Longrightarrow> cap \<noteq> 0"
  by auto

lemma sint_INT_MAX: "sint INT_MAX = 2 ^ 31 - 1"
  by (simp add: INT_MAX_def)

lemma INT_MAX_greatest: "sint (x::cint) \<le> sint INT_MAX"
  using sint_bounds [of x] by (simp add: sint_INT_MAX)

lemma unat_mod_less: "(cap::cint) \<noteq> 0 \<Longrightarrow> unat (k mod cap) < unat cap"
  by (simp add: unat_mod_distrib unat_gt_0)

lemma locate_less:
  "valid_map m \<Longrightarrow> unat (k mod capacity m) < length (table m)"
  using unat_mod_less [of "capacity m" k] pos_cap_ne0 [of "capacity m"]
  by (simp add: valid_map_def)

lemma locate_valid:
  "valid_map m \<Longrightarrow> locate m k = Inr (unat (k mod capacity m))"
  using locate_less [of m k] pos_cap_ne0 [of "capacity m"]
  by (simp add: valid_map_def locate_def key_index_def)

subsection \<open>Scans\<close>

lemma get_scan_None: "get_scan c k = None \<longleftrightarrow> k \<notin> key ` set c"
  by (induction c) auto

lemma put_scan_None: "put_scan c k v = None \<longleftrightarrow> k \<notin> key ` set c"
  by (induction c) (auto split: option.splits)

lemma del_scan_None: "del_scan c k = None \<longleftrightarrow> k \<notin> key ` set c"
  by (induction c) (auto split: option.splits)

lemma put_scan_Some:
  "put_scan c k v = Some (old, c') \<Longrightarrow>
     get_scan c k = Some old \<and> get_scan c' k = Some v \<and> map key c' = map key c"
  by (induction c arbitrary: c') (auto split: option.splits if_splits)

lemma del_scan_Some:
  "del_scan c k = Some (v, c') \<Longrightarrow>
     get_scan c k = Some v \<and> length c = Suc (length c') \<and> set c' \<subseteq> set c"
  by (induction c arbitrary: c') (auto split: option.splits if_splits)

lemma del_scan_distinct:
  "del_scan c k = Some (v, c') \<Longrightarrow> distinct (map key c) \<Longrightarrow>
     distinct (map key c') \<and> k \<notin> key ` set c'"
proof (induction c arbitrary: c')
  case Nil
  then show ?case by simp
next
  case (Cons entry rest)
  show ?case
  proof (cases "key entry = k")
    case True
    with Cons.prems show ?thesis by auto
  next
    case False
    with Cons.prems obtain rest' where r: "del_scan rest k = Some (v, rest')"
      and c': "c' = entry # rest'"
      by (auto split: option.splits)
    from r have "set rest' \<subseteq> set rest" by (simp add: del_scan_Some)
    then have "key ` set rest' \<subseteq> key ` set rest" by blast
    moreover from Cons.prems have "key entry \<notin> key ` set rest" "distinct (map key rest)"
      by simp_all
    moreover note Cons.IH [OF r] False
    ultimately show ?thesis unfolding c' by auto
  qed
qed


subsection \<open>Updating one bucket\<close>

lemma entries_split:
  "i < length (table m) \<Longrightarrow>
     entries m = concat (take i (table m)) @ table m ! i @ concat (drop (Suc i) (table m))"
proof -
  assume "i < length (table m)"
  then have "table m = take i (table m) @ table m ! i # drop (Suc i) (table m)"
    by (rule id_take_nth_drop)
  then have "concat (table m) =
      concat (take i (table m) @ table m ! i # drop (Suc i) (table m))"
    by simp
  then show ?thesis by (simp add: entries_def)
qed

lemma entries_update:
  "i < length (table m) \<Longrightarrow> table m' = (table m)[i := c] \<Longrightarrow>
     entries m' = concat (take i (table m)) @ c @ concat (drop (Suc i) (table m))"
  by (simp add: entries_def upd_conv_take_nth_drop)

lemma valid_map_update:
  "valid_map m \<Longrightarrow> table m' = (table m)[i := c] \<Longrightarrow> capacity m' = capacity m \<Longrightarrow>
     valid_map m'"
  by (simp add: valid_map_def)

lemma placed_update:
  assumes "placed m" and "table m' = (table m)[i := c]" and "capacity m' = capacity m"
    and "chain_placed (capacity m) i c"
  shows "placed m'"
proof -
  have "chain_placed (capacity m') j (table m' ! j)" if "j < length (table m')" for j
  proof (cases "j = i")
    case True
    with that assms(2,3,4) show ?thesis by simp
  next
    case False
    with that assms(1,2,3) show ?thesis by (simp add: placed_def list_all_iff)
  qed
  then show ?thesis by (simp add: placed_def list_all_iff)
qed

lemma present_bucket:
  assumes "valid_map m" and "placed m"
  shows "present m k \<longleftrightarrow> k \<in> key ` set (table m ! unat (k mod capacity m))"
proof
  assume "present m k"
  then obtain c e where c: "c \<in> set (table m)" and e: "e \<in> set c" and k: "key e = k"
    by (auto simp: present_def entries_def)
  from c obtain j where j: "j < length (table m)" and cj: "c = table m ! j"
    by (auto simp: in_set_conv_nth)
  from assms(2) j have "chain_placed (capacity m) j (table m ! j)"
    by (simp add: placed_def list_all_iff)
  with e cj have "unat (key e mod capacity m) = j"
    by (simp add: chain_placed_def list_all_iff)
  with e cj k show "k \<in> key ` set (table m ! unat (k mod capacity m))"
    by auto
next
  assume "k \<in> key ` set (table m ! unat (k mod capacity m))"
  moreover have "table m ! unat (k mod capacity m) \<in> set (table m)"
    using locate_less [OF assms(1), of k] by simp
  ultimately show "present m k"
    by (auto simp: present_def entries_def)
qed

lemma no_duplicates_same_keys:
  assumes "no_duplicates m" and "i < length (table m)" and "table m' = (table m)[i := c]"
    and "map key c = map key (table m ! i)"
  shows "no_duplicates m'"
  using assms(1,4)
  by (simp add: no_duplicates_def entries_split [OF assms(2)] entries_update [OF assms(2,3)])

lemma no_duplicates_insert:
  assumes "no_duplicates m" and "i < length (table m)"
    and "table m' = (table m)[i := e # table m ! i]" and "\<not> present m (key e)"
  shows "no_duplicates m'"
  using assms(1,4)
  by (auto simp: no_duplicates_def present_def entries_split [OF assms(2)]
      entries_update [OF assms(2,3)])

lemma distinct_middle:
  "distinct (xs @ ys @ zs) \<Longrightarrow> set ys' \<subseteq> set ys \<Longrightarrow> distinct ys' \<Longrightarrow>
     distinct (xs @ ys' @ zs)"
  by auto

lemma no_duplicates_remove:
  assumes "no_duplicates m" and "i < length (table m)" and "table m' = (table m)[i := c]"
    and "distinct (map key c)" and "set c \<subseteq> set (table m ! i)"
  shows "no_duplicates m'"
proof -
  let ?xs = "map key (concat (take i (table m)))"
  let ?zs = "map key (concat (drop (Suc i) (table m)))"
  from assms(1) have "distinct (?xs @ map key (table m ! i) @ ?zs)"
    by (simp add: no_duplicates_def entries_split [OF assms(2)])
  moreover from assms(5) have "set (map key c) \<subseteq> set (map key (table m ! i))"
    by auto
  ultimately have "distinct (?xs @ map key c @ ?zs)"
    using assms(4) by (rule distinct_middle)
  then show ?thesis
    by (simp add: no_duplicates_def entries_update [OF assms(2,3)])
qed


lemma no_duplicates_bucket:
  "no_duplicates m \<Longrightarrow> i < length (table m) \<Longrightarrow> distinct (map key (table m ! i))"
  by (simp add: no_duplicates_def entries_split [of i m])

lemma placed_bucket:
  "placed m \<Longrightarrow> i < length (table m) \<Longrightarrow> chain_placed (capacity m) i (table m ! i)"
  by (simp add: placed_def list_all_iff)

lemma chain_placed_subset:
  "chain_placed cap i c \<Longrightarrow> key ` set c' \<subseteq> key ` set c \<Longrightarrow> chain_placed cap i c'"
  by (auto simp: chain_placed_def list_all_iff)

subsection \<open>The operations on a valid map\<close>

lemma map_inv_valid: "map_inv m \<Longrightarrow> valid_map m"
  by (simp add: map_inv_def)

lemma get_valid:
  "valid_map m \<Longrightarrow>
     get m k =
       Inr (case get_scan (table m ! unat (k mod capacity m)) k of
              Some v \<Rightarrow> v | None \<Rightarrow> INT_MAX,
            m\<lparr>numOps := numOps m + 1\<rparr>)"
  by (simp add: get_def locate_valid split: option.splits)

lemma map_inv_numOps: "map_inv (m\<lparr>numOps := n\<rparr>) = map_inv m"
  by (simp add: map_inv_def valid_map_def placed_def no_duplicates_def
      size_counts_def entries_def)

lemma get_inv: "map_inv m \<Longrightarrow> get m k = Inr (r, m') \<Longrightarrow> map_inv m'"
  using get_valid [OF map_inv_valid, of m k] by (auto simp: map_inv_numOps)

lemma put_inv:
  assumes inv: "map_inv m" and put: "put entry_alloc m k v = Inr (r, m')"
  shows "map_inv m'"
proof -
  let ?i = "unat (k mod capacity m)"
  from inv have valid: "valid_map m" and pl: "placed m" and nd: "no_duplicates m"
    and sz: "size_counts m"
    by (simp_all add: map_inv_def)
  have i: "?i < length (table m)" by (rule locate_less [OF valid])
  note bucket = placed_bucket [OF pl i]
  show ?thesis
  proof (cases "put_scan (table m ! ?i) k v")
    case None
    show ?thesis
    proof (cases entry_alloc)
      case False
      with None put valid have "m' = m\<lparr>numOps := numOps m + 1\<rparr>"
        by (simp add: put_def locate_valid)
      with inv show ?thesis by (simp add: map_inv_numOps)
    next
      case True
      let ?e = "\<lparr>key = k, val = v\<rparr>"
      from True None put valid have m': "m' = m\<lparr>table := (table m)[?i := ?e # table m ! ?i],
          size_m := size_m m + 1, numOps := numOps m + 1\<rparr>"
        by (simp add: put_def locate_valid)
      then have t: "table m' = (table m)[?i := ?e # table m ! ?i]"
        and c: "capacity m' = capacity m" and s: "size_m m' = size_m m + 1"
        by simp_all
      from None valid pl have absent: "\<not> present m (key ?e)"
        by (simp add: present_bucket put_scan_None)
      have "valid_map m'" by (rule valid_map_update [OF valid t c])
      moreover have "placed m'"
      proof (rule placed_update [OF pl t c])
        from bucket show "chain_placed (capacity m) ?i (?e # table m ! ?i)"
          by (simp add: chain_placed_def)
      qed
      moreover have "no_duplicates m'" by (rule no_duplicates_insert [OF nd i t absent])
      moreover from sz s have "size_counts m'"
        by (simp add: size_counts_def entries_split [OF i] entries_update [OF i t])
      ultimately show ?thesis by (simp add: map_inv_def)
    qed
  next
    case (Some p)
    obtain old c where p: "p = (old, c)" by (cases p)
    from Some p put valid have m': "m' = m\<lparr>table := (table m)[?i := c],
        numOps := numOps m + 1\<rparr>"
      by (simp add: put_def locate_valid)
    then have t: "table m' = (table m)[?i := c]"
      and cp: "capacity m' = capacity m" and s: "size_m m' = size_m m"
      by simp_all
    from Some p have keys: "map key c = map key (table m ! ?i)"
      by (simp add: put_scan_Some)
    then have len: "length c = length (table m ! ?i)"
      by (rule map_eq_imp_length_eq)
    from keys have "set (map key c) = set (map key (table m ! ?i))" by simp
    then have sub: "key ` set c \<subseteq> key ` set (table m ! ?i)" by simp
    have "valid_map m'" by (rule valid_map_update [OF valid t cp])
    moreover have "placed m'"
      by (rule placed_update [OF pl t cp chain_placed_subset [OF bucket sub]])
    moreover have "no_duplicates m'" by (rule no_duplicates_same_keys [OF nd i t keys])
    moreover from sz s len have "size_counts m'"
      by (simp add: size_counts_def entries_split [OF i] entries_update [OF i t])
    ultimately show ?thesis by (simp add: map_inv_def)
  qed
qed

lemma del_inv:
  assumes inv: "map_inv m" and del: "del m k = Inr (r, m')"
  shows "map_inv m'"
proof -
  let ?i = "unat (k mod capacity m)"
  from inv have valid: "valid_map m" and pl: "placed m" and nd: "no_duplicates m"
    and sz: "size_counts m"
    by (simp_all add: map_inv_def)
  have i: "?i < length (table m)" by (rule locate_less [OF valid])
  show ?thesis
  proof (cases "del_scan (table m ! ?i) k")
    case None
    with del valid have "m' = m\<lparr>numOps := numOps m + 1\<rparr>"
      by (simp add: del_def locate_valid)
    with inv show ?thesis by (simp add: map_inv_numOps)
  next
    case (Some p)
    obtain old c where p: "p = (old, c)" by (cases p)
    from Some p del valid have m': "m' = m\<lparr>table := (table m)[?i := c],
        size_m := size_m m - 1, numOps := numOps m + 1\<rparr>"
      by (simp add: del_def locate_valid)
    then have t: "table m' = (table m)[?i := c]"
      and cp: "capacity m' = capacity m" and s: "size_m m' = size_m m - 1"
      by simp_all
    from Some p have len: "length (table m ! ?i) = Suc (length c)"
      and sub: "set c \<subseteq> set (table m ! ?i)"
      by (simp_all add: del_scan_Some)
    from sub have ksub: "key ` set c \<subseteq> key ` set (table m ! ?i)" by blast
    from Some p no_duplicates_bucket [OF nd i] have dist: "distinct (map key c)"
      by (simp add: del_scan_distinct)
    have "valid_map m'" by (rule valid_map_update [OF valid t cp])
    moreover have "placed m'"
      by (rule placed_update [OF pl t cp chain_placed_subset [OF placed_bucket [OF pl i] ksub]])
    moreover have "no_duplicates m'" by (rule no_duplicates_remove [OF nd i t dist sub])
    moreover from sz s len have "size_counts m'"
      by (simp add: size_counts_def entries_split [OF i] entries_update [OF i t])
    ultimately show ?thesis by (simp add: map_inv_def)
  qed
qed

subsection \<open>Calls and sequences of calls\<close>

lemma put_valid:
  "valid_map m \<Longrightarrow>
     put entry_alloc m k v =
       (case put_scan (table m ! unat (k mod capacity m)) k v of
          Some (oldValue, c) \<Rightarrow>
            Inr (oldValue,
                 m\<lparr>table := (table m)[unat (k mod capacity m) := c],
                   numOps := numOps m + 1\<rparr>)
        | None \<Rightarrow>
            if entry_alloc then
              Inr (INT_MAX,
                   m\<lparr>table := (table m)[unat (k mod capacity m) :=
                        \<lparr>key = k, val = v\<rparr> # table m ! unat (k mod capacity m)],
                     size_m := size_m m + 1,
                     numOps := numOps m + 1\<rparr>)
            else Inr (INT_MAX, m\<lparr>numOps := numOps m + 1\<rparr>))"
  by (simp add: put_def locate_valid)

lemma del_valid:
  "valid_map m \<Longrightarrow>
     del m k =
       (case del_scan (table m ! unat (k mod capacity m)) k of
          Some (v, c) \<Rightarrow>
            Inr (v, m\<lparr>table := (table m)[unat (k mod capacity m) := c],
                      size_m := size_m m - 1,
                      numOps := numOps m + 1\<rparr>)
        | None \<Rightarrow> Inr (INT_MAX, m\<lparr>numOps := numOps m + 1\<rparr>))"
  by (simp add: del_def locate_valid)

lemma step_total: "valid_map m \<Longrightarrow> \<exists>r m'. step m c = Inr (r, m')"
  by (cases c) (auto simp: get_valid put_valid del_valid split: option.splits)

lemma step_inv: "map_inv m \<Longrightarrow> step m c = Inr (r, m') \<Longrightarrow> map_inv m'"
  by (cases c) (auto intro: get_inv put_inv del_inv)

lemma run_inv: "map_inv m \<Longrightarrow> run m cs = Inr (rs, m') \<Longrightarrow> map_inv m'"
proof (induction cs arbitrary: m rs)
  case Nil
  then show ?case by simp
next
  case (Cons c cs)
  from Cons.prems(2) obtain r m1 rs' where s: "step m c = Inr (r, m1)"
    and r: "run m1 cs = Inr (rs', m')"
    by (auto split: sum.splits)
  from Cons.prems(1) s have "map_inv m1" by (rule step_inv)
  then show ?case using r by (rule Cons.IH)
qed

lemma run_total: "map_inv m \<Longrightarrow> \<exists>rs m'. run m cs = Inr (rs, m')"
proof (induction cs arbitrary: m)
  case Nil
  then show ?case by simp
next
  case (Cons c cs)
  from Cons.prems obtain r m1 where s: "step m c = Inr (r, m1)"
    using step_total [OF map_inv_valid] by blast
  with Cons.prems have "map_inv m1" by (rule step_inv)
  then obtain rs m' where "run m1 cs = Inr (rs, m')"
    using Cons.IH by blast
  with s show ?case by simp
qed

lemma step_numOps: "step m c = Inr (r, m') \<Longrightarrow> numOps m' = numOps m + 1"
  by (cases c)
    (auto simp: get_def put_def del_def split: sum.splits option.splits if_splits)

lemma run_numOps:
  "run m cs = Inr (rs, m') \<Longrightarrow> numOps m' = numOps m + of_nat (length cs)"
proof (induction cs arbitrary: m rs)
  case Nil
  then show ?case by simp
next
  case (Cons c cs)
  from Cons.prems obtain r m1 rs' where s: "step m c = Inr (r, m1)"
    and r: "run m1 cs = Inr (rs', m')"
    by (auto split: sum.splits)
  from r have "numOps m' = numOps m1 + of_nat (length cs)" by (rule Cons.IH)
  with step_numOps [OF s] show ?case by simp
qed

lemma concat_empty_chains: "concat (map (\<lambda>i. []) xs) = []"
  by (induction xs) simp_all

lemma initmap_Some:
  "initmap map_alloc table_alloc lock_init cap = Some m0 \<Longrightarrow>
     m0 = \<lparr>table = map (\<lambda>i. []) [0..<nat (sint cap)],
           numOps = 0, capacity = cap, size_m = 0\<rparr>"
  by (simp add: initmap_def split: if_splits)

lemma initmap_inv:
  assumes "0 < sint cap" and "initmap map_alloc table_alloc lock_init cap = Some m0"
  shows "map_inv m0"
proof -
  note m0 = initmap_Some [OF assms(2)]
  have "valid_map m0"
    using assms(1) by (simp add: m0 valid_map_def unat_pos_cap)
  moreover have "placed m0"
    by (simp add: m0 placed_def chain_placed_def list_all_iff)
  moreover have "no_duplicates m0"
    by (simp add: m0 no_duplicates_def entries_def concat_empty_chains)
  moreover have "size_counts m0"
    by (simp add: m0 size_counts_def entries_def concat_empty_chains)
  ultimately show ?thesis by (simp add: map_inv_def)
qed

lemma step_empty_table: "table m = [] \<Longrightarrow> \<exists>e. step m c = Inl e"
  by (cases c) (auto simp: get_def put_def del_def locate_def split: sum.splits)

lemma run_empty_table:
  assumes "table m = []" and "run m cs = Inr (rs, m')"
  shows "m' = m"
proof (cases cs)
  case Nil
  with assms(2) show ?thesis by simp
next
  case (Cons c cs')
  from step_empty_table [OF assms(1)] obtain e where "step m c = Inl e" by blast
  with Cons assms(2) show ?thesis by simp
qed

lemma created_map_inv:
  assumes "0 < sint cap" and "initmap map_alloc table_alloc lock_init cap = Some m0"
    and "run m0 cs = Inr (rs, m)"
  shows "map_inv m"
  using initmap_inv [OF assms(1,2)] assms(3) by (rule run_inv)

subsection \<open>A key that is absent, a key that is found\<close>

lemma absent_bucket:
  assumes "valid_map m" and "\<not> present m k"
  shows "k \<notin> key ` set (table m ! unat (k mod capacity m))"
proof -
  have "table m ! unat (k mod capacity m) \<in> set (table m)"
    using locate_less [OF assms(1), of k] by simp
  with assms(2) show ?thesis
    by (auto simp: present_def entries_def)
qed

lemma get_absent:
  assumes "valid_map m" and "\<not> present m k"
  shows "get m k = Inr (INT_MAX, m\<lparr>numOps := numOps m + 1\<rparr>)"
proof -
  from absent_bucket [OF assms]
  have "get_scan (table m ! unat (k mod capacity m)) k = None"
    by (simp add: get_scan_None)
  then show ?thesis by (simp add: get_valid [OF assms(1)])
qed

lemma del_absent:
  assumes "valid_map m" and "\<not> present m k"
  shows "del m k = Inr (INT_MAX, m\<lparr>numOps := numOps m + 1\<rparr>)"
proof -
  from absent_bucket [OF assms]
  have "del_scan (table m ! unat (k mod capacity m)) k = None"
    by (simp add: del_scan_None)
  then show ?thesis by (simp add: del_valid [OF assms(1)])
qed

lemma put_absent:
  assumes "valid_map m" and "\<not> present m k"
  shows "put entry_alloc m k v =
    (if entry_alloc then
       Inr (INT_MAX,
            m\<lparr>table := (table m)[unat (k mod capacity m) :=
                 \<lparr>key = k, val = v\<rparr> # table m ! unat (k mod capacity m)],
              size_m := size_m m + 1,
              numOps := numOps m + 1\<rparr>)
     else Inr (INT_MAX, m\<lparr>numOps := numOps m + 1\<rparr>))"
proof -
  from absent_bucket [OF assms]
  have "put_scan (table m ! unat (k mod capacity m)) k v = None"
    by (simp add: put_scan_None)
  then show ?thesis by (simp add: put_valid [OF assms(1)])
qed

lemma put_scan_hit:
  "get_scan c k = Some old \<Longrightarrow>
     \<exists>c'. put_scan c k v = Some (old, c') \<and> get_scan c' k = Some v
       \<and> length c' = length c"
  by (induction c) (auto split: if_splits)


lemma put_stores:
  assumes inv: "map_inv m" and ok: "entry_alloc \<or> present m k"
  shows "\<exists>r m'. put entry_alloc m k v = Inr (r, m') \<and> map_inv m'
    \<and> capacity m' = capacity m
    \<and> get_scan (table m' ! unat (k mod capacity m)) k = Some v"
proof -
  let ?i = "unat (k mod capacity m)"
  from inv have valid: "valid_map m" and pl: "placed m" by (simp_all add: map_inv_def)
  have i: "?i < length (table m)" by (rule locate_less [OF valid])
  obtain r m' where put: "put entry_alloc m k v = Inr (r, m')"
    using step_total [OF valid, of "Put entry_alloc k v"] by auto
  have inv': "map_inv m'" by (rule put_inv [OF inv put])
  show ?thesis
  proof (cases "put_scan (table m ! ?i) k v")
    case None
    then have "\<not> present m k"
      using valid pl by (simp add: present_bucket put_scan_None)
    with ok have entry_alloc by simp
    with None put valid have "m' = m\<lparr>table := (table m)[?i :=
        \<lparr>key = k, val = v\<rparr> # table m ! ?i],
        size_m := size_m m + 1, numOps := numOps m + 1\<rparr>"
      by (simp add: put_valid)
    with i have "capacity m' = capacity m" "get_scan (table m' ! ?i) k = Some v"
      by simp_all
    with put inv' show ?thesis by blast
  next
    case (Some p)
    obtain old c where p: "p = (old, c)" by (cases p)
    from Some p have "get_scan c k = Some v" by (simp add: put_scan_Some)
    moreover from Some p put valid have "m' = m\<lparr>table := (table m)[?i := c],
        numOps := numOps m + 1\<rparr>"
      by (simp add: put_valid)
    ultimately have "capacity m' = capacity m" "get_scan (table m' ! ?i) k = Some v"
      using i by simp_all
    with put inv' show ?thesis by blast
  qed
qed

subsection \<open>Counting\<close>

lemma sint_of_nat_small:
  assumes "n < 2 ^ 31"
  shows "sint (of_nat n :: cint) = int n"
proof -
  have len: "LENGTH(32) - Suc 0 = 31" by simp
  from assms have "int n < 2 ^ 31" by simp
  then have "signed_take_bit 31 (int n) = int n"
    by (rule signed_take_bit_int_eq_self [rotated]) simp
  then show ?thesis
    by (simp only: signed_of_nat len of_int_eq_id id_apply)
qed


lemma run_gets_miss:
  "valid_map m \<Longrightarrow> get_scan (table m ! unat (k mod capacity m)) k = None \<Longrightarrow>
     run m (replicate n (Get k)) =
       Inr (replicate n INT_MAX, m\<lparr>numOps := numOps m + of_nat n\<rparr>)"
proof (induction n arbitrary: m)
  case 0
  then show ?case by simp
next
  case (Suc n)
  let ?m1 = "m\<lparr>numOps := numOps m + 1\<rparr>"
  from Suc.prems have g: "get m k = Inr (INT_MAX, ?m1)"
    by (simp add: get_valid)
  from Suc.prems have "valid_map ?m1"
    and "get_scan (table ?m1 ! unat (k mod capacity ?m1)) k = None"
    by (simp_all add: valid_map_def)
  then have "run ?m1 (replicate n (Get k)) =
      Inr (replicate n INT_MAX, ?m1\<lparr>numOps := numOps ?m1 + of_nat n\<rparr>)"
    by (rule Suc.IH)
  with g show ?case by (simp add: add.assoc)
qed

lemma sint_increment:
  assumes "sint (x :: cint) < 2 ^ 31 - 1"
  shows "sint (x + 1) = sint x + 1"
proof -
  have len: "LENGTH(32) - 1 = (31 :: nat)" by simp
  have one: "sint (1 :: cint) = 1" by simp
  have e: "sint (x + 1) = signed_take_bit (LENGTH(32) - 1) (sint x + sint (1 :: cint))"
    by (rule sint_word_add)
  have "- (2 ^ 31) \<le> sint x + 1" "sint x + 1 < 2 ^ 31"
    using sint_bounds [of x] assms by simp_all
  then have "signed_take_bit 31 (sint x + 1) = sint x + 1"
    by (rule signed_take_bit_int_eq_self)
  then show ?thesis by (simp only: e one len)
qed

subsection \<open>The sample map\<close>

lemma scenario_map_inv: "map_inv scenario_map"
  by (simp add: scenario_map_def map_inv_def valid_map_def placed_def chain_placed_def
      no_duplicates_def size_counts_def entries_def upt_rec)

lemma scenario_present: "present scenario_map 5 \<and> \<not> present scenario_map 9"
  by (simp add: scenario_map_def present_def entries_def)

lemma scenario_run:
  "initmap True True True 4 = Some \<lparr>table = [[], [], [], []], numOps = 0, capacity = 4, size_m = 0\<rparr>
   \<and> run \<lparr>table = [[], [], [], []], numOps = 0, capacity = 4, size_m = 0\<rparr>
         [Put True 1 100, Put True 5 200] =
       Inr ([INT_MAX, INT_MAX], scenario_map)"
  by (simp add: initmap_def put_def locate_def key_index_def scenario_map_def upt_rec)

section \<open>The claims\<close>

text \<open>
  C1, amended. On a map that satisfies the invariants, as every map reachable from a
  map created with a positive capacity does (\<open>created_map_inv\<close>), \<^verbatim>\<open>put(m, k, v)\<close>
  immediately followed by \<^verbatim>\<open>get(m, k)\<close> returns \<open>v\<close> when the allocation of the new
  entry succeeds or the key is already in the map. When the allocation fails for a key
  that is absent, \<^verbatim>\<open>put\<close> inserts nothing and the \<^verbatim>\<open>get\<close> returns \<^verbatim>\<open>INT_MAX\<close>. Both
  calls return.
\<close>

theorem put_then_get:
  assumes "map_inv m"
  shows "\<exists>old m'. put entry_alloc m k v = Inr (old, m')
    \<and> get m' k =
        Inr (if entry_alloc \<or> present m k then v else INT_MAX,
             m'\<lparr>numOps := numOps m' + 1\<rparr>)"
proof (cases "entry_alloc \<or> present m k")
  case True
  from put_stores [OF assms True] obtain r m' where
    put: "put entry_alloc m k v = Inr (r, m')" and inv': "map_inv m'"
    and cap: "capacity m' = capacity m"
    and scan: "get_scan (table m' ! unat (k mod capacity m)) k = Some v"
    by blast
  from scan cap have "get m' k = Inr (v, m'\<lparr>numOps := numOps m' + 1\<rparr>)"
    by (simp add: get_valid [OF map_inv_valid [OF inv']])
  with put True show ?thesis by auto
next
  case False
  from assms have valid: "valid_map m" by (rule map_inv_valid)
  from False have absent: "\<not> present m k" and fail: "\<not> entry_alloc" by simp_all
  let ?m' = "m\<lparr>numOps := numOps m + 1\<rparr>"
  have put: "put entry_alloc m k v = Inr (INT_MAX, ?m')"
    using fail by (simp add: put_absent [OF valid absent])
  have "valid_map ?m'" using valid by (simp add: valid_map_def)
  moreover have "\<not> present ?m' k" using absent by (simp add: present_def entries_def)
  ultimately have "get ?m' k = Inr (INT_MAX, ?m'\<lparr>numOps := numOps ?m' + 1\<rparr>)"
    by (rule get_absent)
  with put False show ?thesis by auto
qed

text \<open>
  The theorem at the sample map with a failing allocation: for key 5, which is present,
  and for key 9, which is not.
\<close>

theorem put_then_get_witness:
  "map_inv scenario_map
   \<and> (\<exists>old m'. put False scenario_map 5 7 = Inr (old, m')
        \<and> get m' 5 = Inr (7, m'\<lparr>numOps := numOps m' + 1\<rparr>))
   \<and> (\<exists>old m'. put False scenario_map 9 7 = Inr (old, m')
        \<and> get m' 9 = Inr (INT_MAX, m'\<lparr>numOps := numOps m' + 1\<rparr>))"
  using put_then_get [OF scenario_map_inv, of False 5 7]
    put_then_get [OF scenario_map_inv, of False 9 7]
    scenario_map_inv scenario_present
  by simp

text \<open>
  C1 as stated, for every put, fails: on the map created with capacity 1, a
  \<^verbatim>\<open>put(m, 0, 5)\<close> whose allocation fails inserts nothing, and the \<^verbatim>\<open>get(m, 0)\<close> that
  follows returns \<^verbatim>\<open>INT_MAX\<close>, which is not 5.
\<close>

theorem put_then_get_counterexample:
  "initmap True True True 1 = Some \<lparr>table = [[]], numOps = 0, capacity = 1, size_m = 0\<rparr>
   \<and> put False \<lparr>table = [[]], numOps = 0, capacity = 1, size_m = 0\<rparr> 0 5 =
       Inr (INT_MAX, \<lparr>table = [[]], numOps = 1, capacity = 1, size_m = 0\<rparr>)
   \<and> get \<lparr>table = [[]], numOps = 1, capacity = 1, size_m = 0\<rparr> 0 =
       Inr (INT_MAX, \<lparr>table = [[]], numOps = 2, capacity = 1, size_m = 0\<rparr>)
   \<and> INT_MAX \<noteq> 5"
  by (simp add: initmap_def put_def get_def locate_def key_index_def INT_MAX_def)

text \<open>
  C2, amended. \<^verbatim>\<open>initmap\<close> does not look at the sign of the capacity. For a capacity
  that is not positive it fails exactly when one of its two allocations or the
  initialisation of the mutex fails; otherwise it returns a map with that capacity,
  \<^verbatim>\<open>size\<close> and \<^verbatim>\<open>numOps\<close> zero and a table of length zero. On that map no \<^verbatim>\<open>get\<close>,
  \<^verbatim>\<open>put\<close> or \<^verbatim>\<open>del\<close> is defined: each one divides by zero or reads outside the table.
\<close>

theorem initmap_no_capacity_check:
  assumes "sint cap \<le> 0"
  shows "initmap map_alloc table_alloc lock_init cap =
      (if map_alloc \<and> table_alloc \<and> lock_init
       then Some \<lparr>table = [], numOps = 0, capacity = cap, size_m = 0\<rparr>
       else None)
    \<and> (\<forall>c. \<exists>e. step \<lparr>table = [], numOps = 0, capacity = cap, size_m = 0\<rparr> c = Inl e)"
proof -
  from assms have "nat (sint cap) = 0" by simp
  then have "initmap map_alloc table_alloc lock_init cap =
      (if map_alloc \<and> table_alloc \<and> lock_init
       then Some \<lparr>table = [], numOps = 0, capacity = cap, size_m = 0\<rparr>
       else None)"
    by (simp add: initmap_def)
  moreover have "\<exists>e. step \<lparr>table = [], numOps = 0, capacity = cap, size_m = 0\<rparr> c = Inl e"
    for c
    by (rule step_empty_table) simp
  ultimately show ?thesis by blast
qed

text \<open>
  The theorem at capacity 0, where the map that is returned when everything is
  allocated divides by zero in \<^verbatim>\<open>get\<close>, and at capacity \<open>-3\<close> with a table that cannot
  be allocated.
\<close>

theorem initmap_no_capacity_check_witness:
  "sint (0 :: cint) \<le> 0 \<and> sint (- 3 :: cint) \<le> 0
   \<and> initmap True True True 0 =
       Some \<lparr>table = [], numOps = 0, capacity = 0, size_m = 0\<rparr>
   \<and> get \<lparr>table = [], numOps = 0, capacity = 0, size_m = 0\<rparr> 1 = Inl DivisionByZero
   \<and> initmap True False True (- 3) = None"
proof -
  have h: "sint (0 :: cint) \<le> 0" "sint (- 3 :: cint) \<le> 0" by simp_all
  have g: "get \<lparr>table = [], numOps = 0, capacity = 0, size_m = 0\<rparr> 1 = Inl DivisionByZero"
    by (simp add: get_def locate_def key_index_def)
  from initmap_no_capacity_check [OF h(1), of True True True]
    initmap_no_capacity_check [OF h(2), of True False True] h g
  show ?thesis by simp
qed

text \<open>
  C2 as stated fails: with capacity 0, when the allocations succeed (\<^verbatim>\<open>malloc(0)\<close> may
  return a pointer that is not \<^verbatim>\<open>NULL\<close>), \<^verbatim>\<open>initmap\<close> returns a map whose table has
  length zero.
\<close>

theorem initmap_no_capacity_check_counterexample:
  "sint (0 :: cint) \<le> 0
   \<and> initmap True True True 0 = Some \<lparr>table = [], numOps = 0, capacity = 0, size_m = 0\<rparr>"
  by (simp add: initmap_def)

text \<open>
  C3. On every map with a strictly positive capacity and a table of that length, for
  every key, negative ones included, \<^verbatim>\<open>get\<close>, \<^verbatim>\<open>put\<close> and \<^verbatim>\<open>del\<close> each scan, and
  \<^verbatim>\<open>put\<close> and \<^verbatim>\<open>del\<close> update, the bucket whose index is the unsigned reading of the
  key's bit pattern reduced modulo the capacity. That index lies in the range from 0
  below the capacity, so inside the table. The unsigned reading of a negative key is
  the key plus \<open>2 ^ 32\<close>.
\<close>

theorem key_index_unsigned_mod:
  assumes "valid_map m"
  shows "key_index k (capacity m) = Inr (k mod capacity m)
    \<and> uint (k mod capacity m) = uint k mod sint (capacity m)
    \<and> uint k = (if sint k < 0 then sint k + 2 ^ 32 else sint k)
    \<and> 0 \<le> uint (k mod capacity m) \<and> uint (k mod capacity m) < sint (capacity m)
    \<and> unat (k mod capacity m) < length (table m)
    \<and> get m k =
        Inr (case get_scan (table m ! unat (k mod capacity m)) k of
               Some v \<Rightarrow> v | None \<Rightarrow> INT_MAX,
             m\<lparr>numOps := numOps m + 1\<rparr>)
    \<and> put entry_alloc m k v =
        (case put_scan (table m ! unat (k mod capacity m)) k v of
           Some (oldValue, c) \<Rightarrow>
             Inr (oldValue,
                  m\<lparr>table := (table m)[unat (k mod capacity m) := c],
                    numOps := numOps m + 1\<rparr>)
         | None \<Rightarrow>
             if entry_alloc then
               Inr (INT_MAX,
                    m\<lparr>table := (table m)[unat (k mod capacity m) :=
                         \<lparr>key = k, val = v\<rparr> # table m ! unat (k mod capacity m)],
                      size_m := size_m m + 1,
                      numOps := numOps m + 1\<rparr>)
             else Inr (INT_MAX, m\<lparr>numOps := numOps m + 1\<rparr>))
    \<and> del m k =
        (case del_scan (table m ! unat (k mod capacity m)) k of
           Some (v, c) \<Rightarrow>
             Inr (v, m\<lparr>table := (table m)[unat (k mod capacity m) := c],
                       size_m := size_m m - 1,
                       numOps := numOps m + 1\<rparr>)
         | None \<Rightarrow> Inr (INT_MAX, m\<lparr>numOps := numOps m + 1\<rparr>))"
proof -
  let ?cap = "capacity m"
  from assms have pos: "0 < sint ?cap" by (simp add: valid_map_def)
  then have ne: "?cap \<noteq> 0" by auto
  have "uint (k mod ?cap) = uint k mod uint ?cap"
    by (rule uint_mod_distrib)
  then have eq: "uint (k mod ?cap) = uint k mod sint ?cap"
    using uint_pos_cap [OF pos] by simp
  have "uint k mod sint ?cap < sint ?cap"
    using pos by simp
  then have less: "uint (k mod ?cap) < sint ?cap"
    using eq by simp
  have unsigned: "uint k = (if sint k < 0 then sint k + 2 ^ 32 else sint k)"
  proof (cases "sint k < 0")
    case True
    have "sint k mod 2 ^ 32 = (sint k + 2 ^ 32) mod 2 ^ 32" by simp
    also have "\<dots> = sint k + 2 ^ 32"
      using sint_bounds [of k] True by (intro mod_pos_pos_trivial) simp_all
    finally show ?thesis using True by (simp add: uint_sint_mod)
  next
    case False
    have "sint k mod 2 ^ 32 = sint k"
      using sint_bounds [of k] False by (intro mod_pos_pos_trivial) simp_all
    with False show ?thesis by (simp add: uint_sint_mod)
  qed
  have nonneg: "0 \<le> uint (k mod ?cap)" by simp
  from ne have index: "key_index k ?cap = Inr (k mod ?cap)"
    by (simp add: key_index_def)
  note inside = locate_less [OF assms, of k]
  note ops = get_valid [OF assms, of k] put_valid [OF assms, of entry_alloc k v]
    del_valid [OF assms, of k]
  from index eq unsigned nonneg less inside ops show ?thesis
    by (intro conjI)
qed

text \<open>
  The theorem at the sample map and key \<open>-3\<close>: its unsigned reading is 4294967293, its
  index is 1, \<^verbatim>\<open>get\<close> and \<^verbatim>\<open>del\<close> miss in bucket 1 and \<^verbatim>\<open>put\<close> inserts at the head of
  bucket 1.
\<close>

theorem key_index_unsigned_mod_witness:
  "valid_map scenario_map
    \<and> key_index (- 3) (capacity scenario_map) = Inr 1
    \<and> uint (- 3 :: cint) = 4294967293
    \<and> get scenario_map (- 3) = Inr (INT_MAX, scenario_map\<lparr>numOps := 3\<rparr>)
    \<and> put True scenario_map (- 3) 7 =
        Inr (INT_MAX,
             \<lparr>table = [[], [\<lparr>key = - 3, val = 7\<rparr>, \<lparr>key = 5, val = 200\<rparr>,
                             \<lparr>key = 1, val = 100\<rparr>], [], []],
              numOps = 3, capacity = 4, size_m = 3\<rparr>)
    \<and> del scenario_map (- 3) = Inr (INT_MAX, scenario_map\<lparr>numOps := 3\<rparr>)"
proof -
  have v: "valid_map scenario_map" by (rule map_inv_valid [OF scenario_map_inv])
  from key_index_unsigned_mod [OF v, of "- 3" True 7] v
  show ?thesis by (simp add: scenario_map_def)
qed

text \<open>
  C4, amended. Each completed \<^verbatim>\<open>get\<close>, \<^verbatim>\<open>put\<close> or \<^verbatim>\<open>del\<close>, whatever its outcome,
  adds one to \<^verbatim>\<open>numOps\<close> in 32-bit arithmetic, which is exactly one more unless
  \<^verbatim>\<open>numOps\<close> was \<^verbatim>\<open>INT_MAX\<close>. After a sequence of \<open>N\<close> completed calls on a freshly
  created map, \<^verbatim>\<open>numOps\<close> is exactly \<open>N\<close> when \<open>N < 2 ^ 31\<close>, and in general it is \<open>N\<close>
  reduced to 32 bits. On a map created with a positive capacity every sequence of
  calls completes.
\<close>

theorem numOps_counts_calls:
  "(step m c = Inr (r, m') \<longrightarrow>
        numOps m' = numOps m + 1
        \<and> (sint (numOps m) < 2 ^ 31 - 1 \<longrightarrow> sint (numOps m') = sint (numOps m) + 1))
   \<and> (initmap map_alloc table_alloc lock_init cap = Some m0 \<and> run m0 cs = Inr (rs, mN) \<longrightarrow>
        numOps mN = of_nat (length cs)
        \<and> (length cs < 2 ^ 31 \<longrightarrow> sint (numOps mN) = int (length cs)))
   \<and> (0 < sint cap \<and> initmap map_alloc table_alloc lock_init cap = Some m0 \<longrightarrow>
        (\<exists>rs mN. run m0 cs = Inr (rs, mN)))"
proof (intro conjI impI)
  assume "step m c = Inr (r, m')"
  then show s: "numOps m' = numOps m + 1" by (rule step_numOps)
  assume "sint (numOps m) < 2 ^ 31 - 1"
  then show "sint (numOps m') = sint (numOps m) + 1"
    unfolding s by (rule sint_increment)
next
  assume a: "initmap map_alloc table_alloc lock_init cap = Some m0 \<and> run m0 cs = Inr (rs, mN)"
  then have "numOps m0 = 0" by (auto dest: initmap_Some)
  with a show n: "numOps mN = of_nat (length cs)"
    by (auto dest: run_numOps)
  assume "length cs < 2 ^ 31"
  then show "sint (numOps mN) = int (length cs)"
    unfolding n by (rule sint_of_nat_small)
next
  assume "0 < sint cap \<and> initmap map_alloc table_alloc lock_init cap = Some m0"
  then have "map_inv m0" by (auto intro: initmap_inv)
  then show "\<exists>rs mN. run m0 cs = Inr (rs, mN)" by (rule run_total)
qed

text \<open>
  The theorem at the sample map: the two puts that build it from the fresh map of
  capacity 4 leave \<^verbatim>\<open>numOps\<close> at 2, and a \<^verbatim>\<open>del\<close> on it makes it 3.
\<close>

theorem numOps_counts_calls_witness:
  "step scenario_map (Del 5) =
       Inr (200, \<lparr>table = [[], [\<lparr>key = 1, val = 100\<rparr>], [], []],
                  numOps = 3, capacity = 4, size_m = 1\<rparr>)
   \<and> (3 :: cint) = numOps scenario_map + 1
   \<and> sint (numOps scenario_map) < 2 ^ 31 - 1
   \<and> sint (3 :: cint) = sint (numOps scenario_map) + 1
   \<and> initmap True True True 4 =
       Some \<lparr>table = [[], [], [], []], numOps = 0, capacity = 4, size_m = 0\<rparr>
   \<and> run \<lparr>table = [[], [], [], []], numOps = 0, capacity = 4, size_m = 0\<rparr>
         [Put True 1 100, Put True 5 200] =
       Inr ([INT_MAX, INT_MAX], scenario_map)
   \<and> numOps scenario_map = 2 \<and> sint (numOps scenario_map) = 2
   \<and> 0 < sint (4 :: cint)"
proof -
  let ?m0 = "\<lparr>table = [[], [], [], []], numOps = 0, capacity = 4, size_m = 0\<rparr>"
  let ?cs = "[Put True 1 100, Put True 5 200]"
  let ?m' = "\<lparr>table = [[], [\<lparr>key = 1, val = 100\<rparr>], [], []],
    numOps = 3, capacity = 4, size_m = 1\<rparr>"
  have s: "step scenario_map (Del 5) = Inr (200, ?m')"
    by (simp add: del_def locate_def key_index_def scenario_map_def)
  have l: "length ?cs < 2 ^ 31" by simp
  have b: "sint (numOps scenario_map) < 2 ^ 31 - 1" by (simp add: scenario_map_def)
  note t = numOps_counts_calls [of scenario_map "Del 5" 200 ?m' True True True 4 ?m0 ?cs
      "[INT_MAX, INT_MAX]" scenario_map]
  from t s b have c1: "numOps ?m' = numOps scenario_map + 1"
    and c2: "sint (numOps ?m') = sint (numOps scenario_map) + 1"
    by blast+
  from t scenario_run l have c3: "numOps scenario_map = of_nat (length ?cs)"
    and c4: "sint (numOps scenario_map) = int (length ?cs)"
    by blast+
  have p: "0 < sint (4 :: cint)" by simp
  from c1 have d1: "(3 :: cint) = numOps scenario_map + 1" by simp
  from c2 have d2: "sint (3 :: cint) = sint (numOps scenario_map) + 1" by simp
  from c3 have d3: "numOps scenario_map = 2" by simp
  from c4 have d4: "sint (numOps scenario_map) = 2" by simp
  from s d1 b d2 scenario_run d3 d4 p show ?thesis by blast
qed

text \<open>
  C4 as stated, for every sequence, fails: the \<open>2 ^ 31\<close> calls \<^verbatim>\<open>get(m, 0)\<close> on the map
  created with capacity 1 all complete, each returning \<^verbatim>\<open>INT_MAX\<close>, and leave in
  \<^verbatim>\<open>numOps\<close> the bit pattern that an \<^verbatim>\<open>int\<close> reads as \<open>- (2 ^ 31)\<close>, not \<open>2 ^ 31\<close>.
\<close>

theorem numOps_counts_calls_counterexample:
  "initmap True True True 1 = Some \<lparr>table = [[]], numOps = 0, capacity = 1, size_m = 0\<rparr>
   \<and> length (replicate (2 ^ 31) (Get 0)) = 2 ^ 31
   \<and> run \<lparr>table = [[]], numOps = 0, capacity = 1, size_m = 0\<rparr>
         (replicate (2 ^ 31) (Get 0)) =
       Inr (replicate (2 ^ 31) INT_MAX,
            \<lparr>table = [[]], numOps = 0x80000000, capacity = 1, size_m = 0\<rparr>)
   \<and> sint (0x80000000 :: cint) = - (2 ^ 31)"
proof -
  define n :: nat where "n = 2 ^ 31"
  let ?m0 = "\<lparr>table = [[]], numOps = 0, capacity = 1, size_m = 0\<rparr>"
  let ?mN = "\<lparr>table = [[]], numOps = 0x80000000, capacity = 1, size_m = 0\<rparr>"
  have i: "initmap True True True 1 = Some ?m0"
    by (simp add: initmap_def)
  have v: "valid_map ?m0" by (simp add: valid_map_def)
  have s: "get_scan (table ?m0 ! unat (0 mod capacity ?m0)) 0 = None" by simp
  have w: "?m0\<lparr>numOps := numOps ?m0 + of_nat n\<rparr> = ?mN"
    by (simp add: n_def)
  have r: "run ?m0 (replicate n (Get 0)) = Inr (replicate n INT_MAX, ?mN)"
    using run_gets_miss [OF v s, of n] by (simp only: w)
  have l: "length (replicate n (Get 0)) = n" by (rule length_replicate)
  have g: "sint (0x80000000 :: cint) = - (2 ^ 31)" by simp
  from i l r g show ?thesis unfolding n_def by (intro conjI)
qed

text \<open>
  C5, amended. On a map that satisfies the invariants, when the allocation of the
  first \<^verbatim>\<open>put(m, k, v1)\<close> succeeds or the key is already in the map, a second
  \<^verbatim>\<open>put(m, k, v2)\<close> returns \<open>v1\<close> whatever its own allocation would do, the \<^verbatim>\<open>get(m, k)\<close>
  that follows returns \<open>v2\<close>, and the second put changes neither \<^verbatim>\<open>size\<close> nor the number of
  entries.
\<close>

theorem put_twice:
  assumes "map_inv m" and "entry_alloc \<or> present m k"
  shows "\<exists>r1 m1 m2. put entry_alloc m k v1 = Inr (r1, m1)
    \<and> put entry_alloc' m1 k v2 = Inr (v1, m2)
    \<and> get m2 k = Inr (v2, m2\<lparr>numOps := numOps m2 + 1\<rparr>)
    \<and> size_m m2 = size_m m1
    \<and> length (entries m2) = length (entries m1)"
proof -
  let ?i = "unat (k mod capacity m)"
  from put_stores [OF assms] obtain r1 m1 where
    put1: "put entry_alloc m k v1 = Inr (r1, m1)" and inv1: "map_inv m1"
    and cap1: "capacity m1 = capacity m"
    and scan1: "get_scan (table m1 ! ?i) k = Some v1"
    by blast
  from inv1 have valid1: "valid_map m1" by (rule map_inv_valid)
  have i: "?i < length (table m1)"
    using locate_less [OF valid1, of k] cap1 by simp
  from put_scan_hit [OF scan1] obtain c where
    scan2: "put_scan (table m1 ! ?i) k v2 = Some (v1, c)"
    and found: "get_scan c k = Some v2" and len: "length c = length (table m1 ! ?i)"
    by blast
  let ?m2 = "m1\<lparr>table := (table m1)[?i := c], numOps := numOps m1 + 1\<rparr>"
  have put2: "put entry_alloc' m1 k v2 = Inr (v1, ?m2)"
    using scan2 cap1 by (simp add: put_valid [OF valid1])
  have "map_inv ?m2" by (rule put_inv [OF inv1 put2])
  then have "valid_map ?m2" by (rule map_inv_valid)
  then have get2: "get ?m2 k = Inr (v2, ?m2\<lparr>numOps := numOps ?m2 + 1\<rparr>)"
    using found cap1 i by (simp add: get_valid)
  have "length (entries ?m2) = length (entries m1)"
    using len by (simp add: entries_split [OF i] entries_update [OF i, of ?m2 c])
  with put1 put2 get2 show ?thesis by auto
qed

text \<open>
  The theorem at the sample map and key 5, which is present, with failing allocations.
\<close>

theorem put_twice_witness:
  "map_inv scenario_map \<and> (False \<or> present scenario_map 5)
   \<and> (\<exists>r1 m1 m2. put False scenario_map 5 7 = Inr (r1, m1)
        \<and> put False m1 5 8 = Inr (7, m2)
        \<and> get m2 5 = Inr (8, m2\<lparr>numOps := numOps m2 + 1\<rparr>)
        \<and> size_m m2 = size_m m1
        \<and> length (entries m2) = length (entries m1))"
proof -
  have p: "False \<or> present scenario_map 5" using scenario_present by simp
  from put_twice [OF scenario_map_inv p, of 7 False 8] scenario_map_inv p
  show ?thesis by simp
qed

text \<open>
  C5 as stated, for every first put, fails: on the fresh map of capacity 1, a first
  \<^verbatim>\<open>put(m, 3, 7)\<close> whose allocation fails inserts nothing, so the second \<^verbatim>\<open>put(m, 3, 8)\<close>
  returns \<^verbatim>\<open>INT_MAX\<close>, not 7, and takes \<^verbatim>\<open>size\<close> from 0 to 1.
\<close>

theorem put_twice_counterexample:
  "put False \<lparr>table = [[]], numOps = 0, capacity = 1, size_m = 0\<rparr> 3 7 =
       Inr (INT_MAX, \<lparr>table = [[]], numOps = 1, capacity = 1, size_m = 0\<rparr>)
   \<and> put True \<lparr>table = [[]], numOps = 1, capacity = 1, size_m = 0\<rparr> 3 8 =
       Inr (INT_MAX, \<lparr>table = [[\<lparr>key = 3, val = 8\<rparr>]], numOps = 2, capacity = 1, size_m = 1\<rparr>)
   \<and> INT_MAX \<noteq> 7 \<and> (1 :: cint) \<noteq> 0"
  by (simp add: put_def locate_def key_index_def INT_MAX_def)




text \<open>
  C7. On a map with a positive capacity and a table of that length, for a key that is
  in no chain, \<^verbatim>\<open>get\<close> returns \<^verbatim>\<open>INT_MAX\<close> and \<^verbatim>\<open>del\<close> returns \<^verbatim>\<open>INT_MAX\<close>; each leaves
  the map as it was but for \<^verbatim>\<open>numOps\<close>, so neither \<^verbatim>\<open>size\<close> nor any chain changes.
  \<^verbatim>\<open>INT_MAX\<close> is \<open>2 ^ 31 - 1\<close>, the greatest value of an \<^verbatim>\<open>int\<close>.
\<close>

theorem miss_returns_INT_MAX:
  assumes "valid_map m" and "\<not> present m k"
  shows "get m k = Inr (INT_MAX, m\<lparr>numOps := numOps m + 1\<rparr>)
    \<and> del m k = Inr (INT_MAX, m\<lparr>numOps := numOps m + 1\<rparr>)
    \<and> size_m (m\<lparr>numOps := numOps m + 1\<rparr>) = size_m m
    \<and> table (m\<lparr>numOps := numOps m + 1\<rparr>) = table m
    \<and> sint INT_MAX = 2 ^ 31 - 1
    \<and> (\<forall>x :: cint. sint x \<le> sint INT_MAX)"
  using get_absent [OF assms] del_absent [OF assms] sint_INT_MAX INT_MAX_greatest
  by simp

text \<open>
  The theorem at the sample map and key 9.
\<close>

theorem miss_returns_INT_MAX_witness:
  "valid_map scenario_map \<and> \<not> present scenario_map 9
   \<and> get scenario_map 9 = Inr (INT_MAX, scenario_map\<lparr>numOps := 3\<rparr>)
   \<and> del scenario_map 9 = Inr (INT_MAX, scenario_map\<lparr>numOps := 3\<rparr>)"
proof -
  have v: "valid_map scenario_map" by (rule map_inv_valid [OF scenario_map_inv])
  have p: "\<not> present scenario_map 9" using scenario_present by simp
  have n: "numOps scenario_map + 1 = 3" by (simp add: scenario_map_def)
  from miss_returns_INT_MAX [OF v p] v p n
  show ?thesis by simp
qed



text \<open>
  C9. In every map reached from a freshly created map by a sequence of completed
  \<^verbatim>\<open>get\<close>, \<^verbatim>\<open>put\<close> and \<^verbatim>\<open>del\<close> calls, no key occurs twice, neither within a chain nor
  in two chains; and the same holds after one more call, whatever it is.
\<close>

theorem reachable_no_duplicates:
  assumes "initmap map_alloc table_alloc lock_init cap = Some m0"
    and "run m0 cs = Inr (rs, m)"
  shows "no_duplicates m \<and> (\<forall>c r m'. step m c = Inr (r, m') \<longrightarrow> no_duplicates m')"
proof (cases "0 < sint cap")
  case True
  then have "map_inv m0" using assms(1) by (rule initmap_inv)
  then have inv: "map_inv m" using assms(2) by (rule run_inv)
  then have "map_inv m'" if "step m c = Inr (r, m')" for c r m'
    using that by (rule step_inv)
  with inv show ?thesis by (auto simp: map_inv_def)
next
  case False
  with initmap_Some [OF assms(1)] have empty: "table m0 = []" by simp
  from empty assms(2) have m: "m = m0" by (rule run_empty_table)
  have "no_duplicates m'" if "step m0 c = Inr (r, m')" for c r m'
    using step_empty_table [OF empty, of c] that by auto
  moreover from empty have "no_duplicates m0"
    by (simp add: no_duplicates_def entries_def)
  ultimately show ?thesis unfolding m by blast
qed

text \<open>
  The theorem at the two puts that build the sample map, whose keys 1 and 5 share
  bucket 1.
\<close>

theorem reachable_no_duplicates_witness:
  "initmap True True True 4 =
       Some \<lparr>table = [[], [], [], []], numOps = 0, capacity = 4, size_m = 0\<rparr>
   \<and> run \<lparr>table = [[], [], [], []], numOps = 0, capacity = 4, size_m = 0\<rparr>
         [Put True 1 100, Put True 5 200] =
       Inr ([INT_MAX, INT_MAX], scenario_map)
   \<and> no_duplicates scenario_map"
proof -
  from scenario_run have i: "initmap True True True 4 =
      Some \<lparr>table = [[], [], [], []], numOps = 0, capacity = 4, size_m = 0\<rparr>"
    and r: "run \<lparr>table = [[], [], [], []], numOps = 0, capacity = 4, size_m = 0\<rparr>
      [Put True 1 100, Put True 5 200] = Inr ([INT_MAX, INT_MAX], scenario_map)"
    by simp_all
  from reachable_no_duplicates [OF i r] i r
  show ?thesis by simp
qed




end
